theory Spec2Isabelle
  imports Main
begin

section \<open>The ring buffer: data model\<close>

text \<open>
  The model follows the latest revision of the buffer implementation, the one that has
  \<open>TryPush\<close>, the lightweight \<open>Clear\<close> and \<open>DeepClear\<close>, and that the tests and the
  README describe. The file \<open>buffer.go\<close> holds an earlier revision without \<open>TryPush\<close>,
  whose \<open>Clear\<close> has the body that the latest revision names \<open>DeepClear\<close>; all other
  functions are the same in both. The mutex \<open>mu\<close> serialises the calls and is not part
  of the sequential model: every operation is one atomic step from state to state.

  Go's \<open>int\<close> fields are modelled as \<open>int\<close>: the only arithmetic is \<open>+ 1\<close> below a bound
  that is at most the length of the slice and \<open>- 1\<close> above zero, so no machine overflow
  can occur. The zero value of the type parameter \<open>T\<close> (\<open>var zero T\<close>) is the explicit
  argument \<open>z\<close>. A runtime panic (index out of range) is the result \<open>None\<close>.
\<close>

datatype error = ErrInvalidBuffCap | ErrBufferIsFull

record 'a ringBuffer =
  data :: "'a list"
  size_rb :: int
  cap :: int
  writerIdx :: int
  readerIdx :: int
  lastWriterIdx :: int
  wrapped :: bool

text \<open>\<open>cap(rb.data)\<close>: the slice is made by \<open>make([]T, capacity)\<close> and never resliced,
  so its capacity is its length.\<close>

definition cap_data :: "'a ringBuffer \<Rightarrow> int" where
  "cap_data rb = int (length (data rb))"

text \<open>An index expression \<open>rb.data[idx]\<close> panics unless \<open>0 \<le> idx < len(rb.data)\<close>.\<close>

definition in_range :: "int \<Rightarrow> 'a ringBuffer \<Rightarrow> bool" where
  "in_range idx rb \<longleftrightarrow> 0 \<le> idx \<and> idx < int (length (data rb))"

section \<open>The operations\<close>

text \<open>\<open>shiftIdx\<close> takes a pointer to the index; the model returns the new index
  together with the boolean result.\<close>

definition shiftIdx :: "'a ringBuffer \<Rightarrow> int \<Rightarrow> int \<times> bool" where
  "shiftIdx rb idx = (if idx < cap rb - 1 then (idx + 1, False) else (0, True))"

definition writeZeroVal :: "'a \<Rightarrow> int \<Rightarrow> 'a ringBuffer \<Rightarrow> 'a ringBuffer option" where
  "writeZeroVal z idx rb =
     (if in_range idx rb then
        let rb1 = rb\<lparr>data := (data rb)[nat idx := z]\<rparr>
        in Some (if size_rb rb1 > 0 then rb1\<lparr>size_rb := size_rb rb1 - 1\<rparr> else rb1)
      else None)"

definition Push :: "'a \<Rightarrow> 'a ringBuffer \<Rightarrow> 'a ringBuffer option" where
  "Push item rb =
     (if in_range (writerIdx rb) rb then
        let rb1 = rb\<lparr>data := (data rb)[nat (writerIdx rb) := item]\<rparr>;
            rb2 = rb1\<lparr>lastWriterIdx := writerIdx rb1\<rparr>;
            rb3 = (if size_rb rb2 < cap_data rb2 then rb2\<lparr>size_rb := size_rb rb2 + 1\<rparr> else rb2);
            (idx, round) = shiftIdx rb3 (writerIdx rb3);
            rb4 = rb3\<lparr>writerIdx := idx\<rparr>
        in Some (if round then rb4\<lparr>wrapped := True\<rparr> else rb4)
      else None)"

definition Size :: "'a ringBuffer \<Rightarrow> int" where
  "Size rb = size_rb rb"

definition IsEmpty :: "'a ringBuffer \<Rightarrow> bool" where
  "IsEmpty rb \<longleftrightarrow> Size rb = 0"

definition IsFull :: "'a ringBuffer \<Rightarrow> bool" where
  "IsFull rb \<longleftrightarrow> size_rb rb = cap_data rb"

text \<open>\<open>TryPush\<close> returns the state and Go's \<open>error\<close> value (\<open>None\<close> is \<open>nil\<close>).\<close>

definition TryPush :: "'a \<Rightarrow> 'a ringBuffer \<Rightarrow> ('a ringBuffer \<times> error option) option" where
  "TryPush item rb =
     (if IsFull rb then Some (rb, Some ErrBufferIsFull)
      else case Push item rb of None \<Rightarrow> None | Some rb' \<Rightarrow> Some (rb', None))"

text \<open>\<open>Pop\<close> returns the state and the pair \<open>(T, bool)\<close>.\<close>

definition Pop :: "'a \<Rightarrow> 'a ringBuffer \<Rightarrow> ('a ringBuffer \<times> 'a \<times> bool) option" where
  "Pop z rb =
     (if size_rb rb = 0 then Some (rb, z, False)
      else if in_range (readerIdx rb) rb then
        let item = data rb ! nat (readerIdx rb)
        in case writeZeroVal z (readerIdx rb) rb of
             None \<Rightarrow> None
           | Some rb1 \<Rightarrow>
               let (idx, round) = shiftIdx rb1 (readerIdx rb1);
                   rb2 = rb1\<lparr>readerIdx := idx\<rparr>
               in Some (if round then rb2\<lparr>wrapped := False\<rparr> else rb2, item, True)
      else None)"

text \<open>\<open>Get\<close> only reads; it returns the pair \<open>(T, bool)\<close>.\<close>

definition Get :: "'a \<Rightarrow> 'a ringBuffer \<Rightarrow> ('a \<times> bool) option" where
  "Get z rb =
     (if size_rb rb = 0 then Some (z, False)
      else if in_range (readerIdx rb) rb then Some (data rb ! nat (readerIdx rb), True)
      else None)"

definition Clear :: "'a ringBuffer \<Rightarrow> 'a ringBuffer" where
  "Clear rb =
     (if IsEmpty rb then rb
      else rb\<lparr>writerIdx := 0, readerIdx := 0, lastWriterIdx := 0, wrapped := False,
              size_rb := 0\<rparr>)"

text \<open>The loop \<open>for i := 0; i < cap(rb.data); i++ { rb.writeZeroVal(i) }\<close>.\<close>

function DeepClear_loop :: "'a \<Rightarrow> int \<Rightarrow> 'a ringBuffer \<Rightarrow> 'a ringBuffer option" where
  "DeepClear_loop z i rb =
     (if i < cap_data rb then
        (case writeZeroVal z i rb of
           None \<Rightarrow> None
         | Some rb' \<Rightarrow> DeepClear_loop z (i + 1) rb')
      else Some rb)"
  by pat_completeness auto
termination
  by (relation "measure (\<lambda>(z, i, rb). nat (cap_data rb - i))")
     (auto simp: writeZeroVal_def cap_data_def Let_def split: if_splits)

declare DeepClear_loop.simps [simp del]

definition DeepClear :: "'a \<Rightarrow> 'a ringBuffer \<Rightarrow> 'a ringBuffer option" where
  "DeepClear z rb = (if IsEmpty rb then Some rb else DeepClear_loop z 0 rb)"

text \<open>\<open>New\<close> returns the pair (pointer, error): \<open>None\<close> in the first component is the
  nil pointer, \<open>None\<close> in the second the nil error.\<close>

definition New :: "'a \<Rightarrow> int \<Rightarrow> 'a ringBuffer option \<times> error option" where
  "New z capacity =
     (if capacity < 1 then (None, Some ErrInvalidBuffCap)
      else (Some \<lparr>data = replicate (nat capacity) z, size_rb = 0, cap = capacity,
                  writerIdx = 0, readerIdx = 0, lastWriterIdx = 0, wrapped = False\<rparr>,
            None))"

section \<open>Sequences of operations\<close>

datatype 'a op = OpPush 'a | OpTryPush 'a | OpPop | OpGet | OpClear | OpDeepClear

fun apply_op :: "'a \<Rightarrow> 'a op \<Rightarrow> 'a ringBuffer \<Rightarrow> 'a ringBuffer option" where
  "apply_op z (OpPush x) rb = Push x rb"
| "apply_op z (OpTryPush x) rb = map_option fst (TryPush x rb)"
| "apply_op z OpPop rb = map_option fst (Pop z rb)"
| "apply_op z OpGet rb = map_option (\<lambda>_. rb) (Get z rb)"
| "apply_op z OpClear rb = Some (Clear rb)"
| "apply_op z OpDeepClear rb = DeepClear z rb"

fun exec :: "'a \<Rightarrow> 'a op list \<Rightarrow> 'a ringBuffer \<Rightarrow> 'a ringBuffer option" where
  "exec z [] rb = Some rb"
| "exec z (opn # ops) rb =
     (case apply_op z opn rb of None \<Rightarrow> None | Some rb' \<Rightarrow> exec z ops rb')"

text \<open>A run: construct a buffer of capacity \<open>c\<close>, then perform the operations in order.
  The states it returns are the reachable states.\<close>

definition run :: "'a \<Rightarrow> int \<Rightarrow> 'a op list \<Rightarrow> 'a ringBuffer option" where
  "run z c ops = (case New z c of (Some rb, None) \<Rightarrow> exec z ops rb | _ \<Rightarrow> None)"

text \<open>The state invariant of a successfully constructed buffer.\<close>

definition rb_inv :: "'a ringBuffer \<Rightarrow> bool" where
  "rb_inv rb \<longleftrightarrow>
     1 \<le> cap rb \<and> cap_data rb = cap rb \<and>
     0 \<le> size_rb rb \<and> size_rb rb \<le> cap rb \<and>
     0 \<le> writerIdx rb \<and> writerIdx rb < cap rb \<and>
     0 \<le> readerIdx rb \<and> readerIdx rb < cap rb"

section \<open>Pushing a list and popping repeatedly\<close>

text \<open>\<open>PopN z n\<close> calls \<open>Pop\<close> \<open>n\<close> times and collects the returned pairs in order.\<close>

fun PopN :: "'a \<Rightarrow> nat \<Rightarrow> 'a ringBuffer \<Rightarrow> (('a \<times> bool) list \<times> 'a ringBuffer) option" where
  "PopN z 0 rb = Some ([], rb)"
| "PopN z (Suc n) rb =
     (case Pop z rb of
        None \<Rightarrow> None
      | Some (rb1, v, ok) \<Rightarrow>
          (case PopN z n rb1 of
             None \<Rightarrow> None
           | Some (rs, rb2) \<Rightarrow> Some ((v, ok) # rs, rb2)))"

text \<open>From the state \<open>rb\<close>, push the items of \<open>xs\<close> in order, then pop \<open>n\<close> times: the
  pairs that the pops return.\<close>

definition pushes_then_pops :: "'a \<Rightarrow> 'a ringBuffer \<Rightarrow> 'a list \<Rightarrow> nat \<Rightarrow> ('a \<times> bool) list option" where
  "pushes_then_pops z rb xs n =
     (case exec z (map OpPush xs) rb of
        None \<Rightarrow> None
      | Some rb' \<Rightarrow> map_option fst (PopN z n rb'))"

text \<open>The same from a newly constructed buffer of capacity \<open>c\<close>.\<close>

definition push_then_pop :: "'a \<Rightarrow> int \<Rightarrow> 'a list \<Rightarrow> nat \<Rightarrow> ('a \<times> bool) list option" where
  "push_then_pop z c xs n =
     (case New z c of (Some rb, None) \<Rightarrow> pushes_then_pops z rb xs n | _ \<Rightarrow> None)"

section \<open>Live slots\<close>

text \<open>
  The code keeps no record of which slots hold live values, so liveness is a ghost set
  of slot indices kept beside the state, following the words of the specification: a
  slot is live when a value has been pushed into it and has not been popped since.
  \<open>Push\<close> makes the slot at the write cursor live, a successful \<open>Pop\<close> makes the slot
  at the read cursor not live, and \<open>Clear\<close> and \<open>DeepClear\<close> on a non-empty buffer
  remove all elements. Every other call leaves the set as it is.
\<close>

fun live_op :: "'a op \<Rightarrow> 'a ringBuffer \<Rightarrow> int set \<Rightarrow> int set" where
  "live_op (OpPush x) rb L = insert (writerIdx rb) L"
| "live_op (OpTryPush x) rb L = (if IsFull rb then L else insert (writerIdx rb) L)"
| "live_op OpPop rb L = (if size_rb rb = 0 then L else L - {readerIdx rb})"
| "live_op OpGet rb L = L"
| "live_op OpClear rb L = (if IsEmpty rb then L else {})"
| "live_op OpDeepClear rb L = (if IsEmpty rb then L else {})"

fun exec_live :: "'a \<Rightarrow> 'a op list \<Rightarrow> 'a ringBuffer \<Rightarrow> int set \<Rightarrow> ('a ringBuffer \<times> int set) option" where
  "exec_live z [] rb L = Some (rb, L)"
| "exec_live z (opn # ops) rb L =
     (case apply_op z opn rb of
        None \<Rightarrow> None
      | Some rb' \<Rightarrow> exec_live z ops rb' (live_op opn rb L))"

definition run_live :: "'a \<Rightarrow> int \<Rightarrow> 'a op list \<Rightarrow> ('a ringBuffer \<times> int set) option" where
  "run_live z c ops =
     (case New z c of (Some rb, None) \<Rightarrow> exec_live z ops rb {} | _ \<Rightarrow> None)"

text \<open>The logical window \<open>[r, w)\<close> modulo the capacity \<open>c\<close>.\<close>

definition window :: "int \<Rightarrow> int \<Rightarrow> int \<Rightarrow> int set" where
  "window r w c = (if r \<le> w then {r..<w} else {r..<c} \<union> {0..<w})"

text \<open>The invariant of the specification: the live slots are those of the window when
  \<open>0 < size < capacity\<close>, all slots when \<open>size = capacity\<close>, none when \<open>size = 0\<close>.\<close>

definition live_window :: "'a ringBuffer \<Rightarrow> int set \<Rightarrow> bool" where
  "live_window rb L \<longleftrightarrow>
     (0 < size_rb rb \<and> size_rb rb < cap rb \<longrightarrow>
        L = window (readerIdx rb) (writerIdx rb) (cap rb)) \<and>
     (size_rb rb = cap rb \<longrightarrow> L = {0..<cap rb}) \<and>
     (size_rb rb = 0 \<longrightarrow> L = {})"

text \<open>Runs in which \<open>Push\<close> is never called on a full buffer and \<open>DeepClear\<close> never on
  a non-empty one.\<close>

fun no_overwrite :: "'a op \<Rightarrow> 'a ringBuffer \<Rightarrow> bool" where
  "no_overwrite (OpPush x) rb = (\<not> IsFull rb)"
| "no_overwrite OpDeepClear rb = IsEmpty rb"
| "no_overwrite opn rb = True"

fun no_overwrites :: "'a \<Rightarrow> 'a op list \<Rightarrow> 'a ringBuffer \<Rightarrow> bool" where
  "no_overwrites z [] rb = True"
| "no_overwrites z (opn # ops) rb =
     (no_overwrite opn rb \<and>
      (case apply_op z opn rb of None \<Rightarrow> False | Some rb' \<Rightarrow> no_overwrites z ops rb'))"

definition run_no_overwrites :: "'a \<Rightarrow> int \<Rightarrow> 'a op list \<Rightarrow> bool" where
  "run_no_overwrites z c ops =
     (case New z c of (Some rb, None) \<Rightarrow> no_overwrites z ops rb | _ \<Rightarrow> False)"

text \<open>The \<open>s\<close> slots from \<open>r\<close> on, cyclically, and the invariant that the runs without
  overwriting keep: the live slots are the \<open>size\<close> slots from the read cursor on, and
  the write cursor is the slot after them.\<close>

definition seg :: "int \<Rightarrow> int \<Rightarrow> int \<Rightarrow> int set" where
  "seg r s c = {i. 0 \<le> i \<and> i < c \<and> ((r \<le> i \<and> i < r + s) \<or> i + c < r + s)}"

definition live_inv :: "'a ringBuffer \<Rightarrow> int set \<Rightarrow> bool" where
  "live_inv rb L \<longleftrightarrow>
     rb_inv rb \<and> L = seg (readerIdx rb) (size_rb rb) (cap rb) \<and>
     writerIdx rb = (if readerIdx rb + size_rb rb < cap rb then readerIdx rb + size_rb rb
                     else readerIdx rb + size_rb rb - cap rb)"

section \<open>Basic facts\<close>

lemma New_ok:
  "1 \<le> c \<Longrightarrow> New z c = (Some rb, None) \<Longrightarrow> rb_inv rb"
  by (auto simp: New_def rb_inv_def cap_data_def)

lemma writeZeroVal_Some:
  "in_range idx rb \<Longrightarrow>
   writeZeroVal z idx rb =
     Some (rb\<lparr>data := (data rb)[nat idx := z],
              size_rb := (if size_rb rb > 0 then size_rb rb - 1 else size_rb rb)\<rparr>)"
  by (simp add: writeZeroVal_def Let_def)

lemma Push_inv:
  assumes "rb_inv rb"
  shows "\<exists>rb'. Push x rb = Some rb' \<and> rb_inv rb'"
  using assms
  by (auto simp: Push_def rb_inv_def in_range_def cap_data_def shiftIdx_def Let_def)

lemma Pop_inv:
  assumes "rb_inv rb"
  shows "\<exists>rb' v ok. Pop z rb = Some (rb', v, ok) \<and> rb_inv rb'"
  using assms
  by (auto simp: Pop_def writeZeroVal_def rb_inv_def in_range_def cap_data_def
      shiftIdx_def Let_def)

lemma Get_inv:
  assumes "rb_inv rb"
  shows "\<exists>v ok. Get z rb = Some (v, ok)"
  using assms
  by (auto simp: Get_def rb_inv_def in_range_def cap_data_def)

lemma Clear_inv:
  assumes "rb_inv rb"
  shows "rb_inv (Clear rb)"
  using assms by (auto simp: Clear_def rb_inv_def cap_data_def)

lemma DeepClear_loop_spec:
  "0 \<le> i \<Longrightarrow> i \<le> cap_data rb \<Longrightarrow>
   DeepClear_loop z i rb =
     Some (rb\<lparr>data := take (nat i) (data rb) @ replicate (length (data rb) - nat i) z,
              size_rb := (if size_rb rb > 0 then max 0 (size_rb rb - (cap_data rb - i))
                          else size_rb rb)\<rparr>)"
proof (induction z i rb rule: DeepClear_loop.induct)
  case (1 z i rb)
  show ?case
  proof (cases "i < cap_data rb")
    case False
    with "1.prems" have "i = cap_data rb" by simp
    then show ?thesis
      by (subst DeepClear_loop.simps) (simp add: cap_data_def)
  next
    case True
    let ?rb' = "rb\<lparr>data := (data rb)[nat i := z],
              size_rb := (if size_rb rb > 0 then size_rb rb - 1 else size_rb rb)\<rparr>"
    have rng: "in_range i rb"
      using True "1.prems" by (simp add: in_range_def cap_data_def)
    have w: "writeZeroVal z i rb = Some ?rb'"
      using rng by (rule writeZeroVal_Some)
    have cd: "cap_data ?rb' = cap_data rb" by (simp add: cap_data_def)
    have ih: "DeepClear_loop z (i + 1) ?rb' =
       Some (?rb'\<lparr>data := take (nat (i + 1)) (data ?rb') @ replicate (length (data ?rb') - nat (i + 1)) z,
              size_rb := (if size_rb ?rb' > 0 then max 0 (size_rb ?rb' - (cap_data ?rb' - (i + 1)))
                          else size_rb ?rb')\<rparr>)"
      using "1.IH"[OF True w] "1.prems" True cd by simp
    have n: "nat i < length (data rb)"
      using rng "1.prems" by (simp add: in_range_def)
    have d: "take (nat (i + 1)) ((data rb)[nat i := z]) @ replicate (length (data rb) - nat (i + 1)) z
        = take (nat i) (data rb) @ replicate (length (data rb) - nat i) z"
    proof -
      have "nat (i + 1) = Suc (nat i)" using "1.prems" by simp
      moreover have "take (Suc (nat i)) ((data rb)[nat i := z]) = take (nat i) (data rb) @ [z]"
        using n by (simp add: take_Suc_conv_app_nth)
      moreover have "replicate (length (data rb) - nat i) z = z # replicate (length (data rb) - Suc (nat i)) z"
        using n by (metis Suc_diff_Suc replicate_Suc)
      ultimately show ?thesis by simp
    qed
    show ?thesis
      apply (subst DeepClear_loop.simps)
      using True w ih d "1.prems" by (auto simp: cap_data_def)
  qed
qed

lemma DeepClear_nonempty:
  assumes "size_rb rb \<noteq> 0"
  shows "DeepClear z rb =
     Some (rb\<lparr>data := replicate (length (data rb)) z,
              size_rb := (if size_rb rb > 0 then max 0 (size_rb rb - cap_data rb)
                          else size_rb rb)\<rparr>)"
  using assms DeepClear_loop_spec[of 0 rb z]
  by (simp add: DeepClear_def IsEmpty_def Size_def cap_data_def)

lemma DeepClear_inv:
  assumes "rb_inv rb"
  shows "\<exists>rb'. DeepClear z rb = Some rb' \<and> rb_inv rb' \<and> cap rb' = cap rb"
proof (cases "size_rb rb = 0")
  case True
  with assms show ?thesis by (simp add: DeepClear_def IsEmpty_def Size_def)
next
  case False
  with assms show ?thesis
    by (auto simp: DeepClear_nonempty rb_inv_def cap_data_def)
qed

lemma Push_cap: "Push x rb = Some rb' \<Longrightarrow> cap rb' = cap rb"
  by (auto simp: Push_def Let_def shiftIdx_def split: if_splits)

lemma Pop_cap: "Pop z rb = Some (rb', v, ok) \<Longrightarrow> cap rb' = cap rb"
  by (auto simp: Pop_def writeZeroVal_def Let_def shiftIdx_def split: if_splits)

lemma apply_op_inv:
  assumes "rb_inv rb"
  shows "\<exists>rb'. apply_op z opn rb = Some rb' \<and> rb_inv rb' \<and> cap rb' = cap rb"
proof (cases opn)
  case (OpPush x)
  with Push_inv[OF assms, of x] show ?thesis by (auto dest: Push_cap)
next
  case (OpTryPush x)
  with Push_inv[OF assms, of x] assms show ?thesis
    by (auto simp: TryPush_def dest: Push_cap)
next
  case OpPop
  with Pop_inv[OF assms, of z] show ?thesis by (auto dest: Pop_cap)
next
  case OpGet
  with Get_inv[OF assms, of z] assms show ?thesis by auto
next
  case OpClear
  with Clear_inv[OF assms] show ?thesis by (auto simp: Clear_def)
next
  case OpDeepClear
  with DeepClear_inv[OF assms, of z] show ?thesis by simp
qed

lemma exec_inv:
  "rb_inv rb \<Longrightarrow> \<exists>rb'. exec z ops rb = Some rb' \<and> rb_inv rb' \<and> cap rb' = cap rb"
proof (induction ops arbitrary: rb)
  case Nil
  then show ?case by simp
next
  case (Cons opn ops)
  from apply_op_inv[OF Cons.prems, of z opn]
  obtain rb1 where s: "apply_op z opn rb = Some rb1" and i: "rb_inv rb1" and c: "cap rb1 = cap rb"
    by blast
  from Cons.IH[OF i] s c show ?case by auto
qed

lemma run_inv:
  "1 \<le> c \<Longrightarrow> \<exists>rb. run z c ops = Some rb \<and> rb_inv rb \<and> cap rb = c"
proof -
  assume c: "1 \<le> c"
  let ?rb0 = "\<lparr>data = replicate (nat c) z, size_rb = 0, cap = c,
                  writerIdx = 0, readerIdx = 0, lastWriterIdx = 0, wrapped = False\<rparr>"
  have n: "New z c = (Some ?rb0, None)" using c by (simp add: New_def)
  have "rb_inv ?rb0" using c by (simp add: rb_inv_def cap_data_def)
  from exec_inv[OF this, of z ops] n show ?thesis by (auto simp: run_def)
qed

lemma run_Some_cap: "run z c ops = Some rb \<Longrightarrow> 1 \<le> c"
  by (auto simp: run_def New_def split: if_splits)

lemma run_Some_inv: "run z c ops = Some rb \<Longrightarrow> rb_inv rb \<and> cap rb = c"
  using run_inv[of c z ops] run_Some_cap[of z c ops rb] by auto

section \<open>Construction\<close>

text \<open>
  Claim C7. \<open>New[T](capacity)\<close> returns \<open>ErrInvalidBuffCap\<close> and no buffer instance
  exactly when \<open>capacity < 1\<close>; otherwise it returns (with a nil error) a buffer with
  \<open>capacity\<close> slots that all hold the zero value, size 0, and write cursor, read cursor
  and wrapped flag at their zero initial values.
\<close>

theorem New_spec:
  "(fst (New z capacity) = None \<longleftrightarrow> capacity < 1) \<and>
   (snd (New z capacity) = Some ErrInvalidBuffCap \<longleftrightarrow> capacity < 1) \<and>
   (capacity < 1 \<longrightarrow> New z capacity = (None, Some ErrInvalidBuffCap)) \<and>
   (1 \<le> capacity \<longrightarrow>
      (\<exists>rb. New z capacity = (Some rb, None) \<and>
            int (length (data rb)) = capacity \<and> (\<forall>i < length (data rb). data rb ! i = z) \<and>
            size_rb rb = 0 \<and> cap rb = capacity \<and>
            writerIdx rb = 0 \<and> readerIdx rb = 0 \<and> lastWriterIdx rb = 0 \<and> \<not> wrapped rb))"
  by (simp add: New_def)

theorem New_spec_witness:
  "New (0::int) 0 = (None, Some ErrInvalidBuffCap) \<and>
   New (0::int) (- 1) = (None, Some ErrInvalidBuffCap) \<and>
   (\<exists>rb. New (0::int) 3 = (Some rb, None) \<and> data rb = [0, 0, 0] \<and> size_rb rb = 0 \<and>
         cap rb = 3 \<and> writerIdx rb = 0 \<and> readerIdx rb = 0 \<and> \<not> wrapped rb)"
  using New_spec [of "0::int" 0] New_spec [of "0::int" "- 1"] New_spec [of "0::int" 3]
  by (simp add: New_def numeral_3_eq_3)

section \<open>Bounds on size and cursors\<close>

text \<open>
  Claim C8. Every sequence of operations on a successfully constructed buffer runs
  without a panic, and the state it reaches satisfies \<open>0 \<le> size \<le> capacity\<close>,
  \<open>0 \<le> writerIdx < capacity\<close> and \<open>0 \<le> readerIdx < capacity\<close>; the capacity is the
  one given to \<open>New\<close> and the number of slots. In particular \<open>Size() \<le> capacity\<close> after
  every sequence of pushes.
\<close>

theorem reachable_bounds:
  assumes "1 \<le> c"
  shows "\<exists>rb. run z c ops = Some rb \<and>
           0 \<le> size_rb rb \<and> size_rb rb \<le> cap rb \<and>
           0 \<le> writerIdx rb \<and> writerIdx rb < cap rb \<and>
           0 \<le> readerIdx rb \<and> readerIdx rb < cap rb \<and>
           cap rb = c \<and> int (length (data rb)) = c \<and> Size rb \<le> c"
  using run_inv [OF assms, of z ops]
  by (auto simp: rb_inv_def cap_data_def Size_def)

theorem reachable_bounds_witness:
  "(1::int) \<le> 2 \<and>
   (\<exists>rb. run (0::int) 2 [OpPush 1, OpPush 2, OpPush 3, OpPop, OpDeepClear, OpPush 4] = Some rb \<and>
         0 \<le> size_rb rb \<and> size_rb rb \<le> cap rb \<and>
         0 \<le> writerIdx rb \<and> writerIdx rb < cap rb \<and>
         0 \<le> readerIdx rb \<and> readerIdx rb < cap rb \<and>
         cap rb = 2 \<and> int (length (data rb)) = 2 \<and> Size rb \<le> 2)"
  using reachable_bounds [of 2 "0::int" "[OpPush 1, OpPush 2, OpPush 3, OpPop, OpDeepClear, OpPush 4]"]
  by simp

section \<open>Pop and Get\<close>

text \<open>
  Claim C6. On every buffer with \<open>size = 0\<close> (newly constructed or drained), \<open>Pop()\<close> and
  \<open>Get()\<close> both return the zero value with \<open>ok = false\<close>, do not panic, and leave every
  field of the buffer unchanged; so repeating either call gives the same result.
\<close>

theorem Pop_Get_empty:
  assumes "size_rb rb = 0"
  shows "Pop z rb = Some (rb, z, False) \<and> Get z rb = Some (z, False) \<and>
         apply_op z OpPop rb = Some rb \<and> apply_op z OpGet rb = Some rb"
  using assms by (simp add: Pop_def Get_def)

theorem Pop_Get_empty_witness:
  "size_rb \<lparr>data = [7, 0::int], size_rb = 0, cap = 2, writerIdx = 1, readerIdx = 1,
            lastWriterIdx = 0, wrapped = False\<rparr> = 0 \<and>
   Pop 0 \<lparr>data = [7, 0::int], size_rb = 0, cap = 2, writerIdx = 1, readerIdx = 1,
          lastWriterIdx = 0, wrapped = False\<rparr>
     = Some (\<lparr>data = [7, 0], size_rb = 0, cap = 2, writerIdx = 1, readerIdx = 1,
              lastWriterIdx = 0, wrapped = False\<rparr>, 0, False) \<and>
   Get 0 \<lparr>data = [7, 0::int], size_rb = 0, cap = 2, writerIdx = 1, readerIdx = 1,
          lastWriterIdx = 0, wrapped = False\<rparr> = Some (0, False)"
  using Pop_Get_empty [of "\<lparr>data = [7, 0::int], size_rb = 0, cap = 2, writerIdx = 1,
      readerIdx = 1, lastWriterIdx = 0, wrapped = False\<rparr>" 0]
  by simp

text \<open>
  Claim C9. In every reachable state with \<open>size > 0\<close>, \<open>Pop()\<close> and \<open>Get()\<close> return the
  same value, the one in the slot at \<open>readerIdx\<close>, and both report \<open>ok = true\<close>.
\<close>

theorem Pop_Get_agree:
  assumes "run z c ops = Some rb" and "0 < size_rb rb"
  shows "\<exists>rb' v. Pop z rb = Some (rb', v, True) \<and> Get z rb = Some (v, True) \<and>
                 v = data rb ! nat (readerIdx rb)"
proof -
  from run_Some_inv [OF assms(1)] have "in_range (readerIdx rb) rb"
    by (simp add: rb_inv_def in_range_def cap_data_def)
  with assms(2) show ?thesis
    by (simp add: Pop_def Get_def writeZeroVal_def Let_def split: prod.splits)
qed

theorem Pop_Get_agree_witness:
  "run (0::int) 3 [OpPush 4, OpPush 5] =
     Some \<lparr>data = [4, 5, 0], size_rb = 2, cap = 3, writerIdx = 2, readerIdx = 0,
           lastWriterIdx = 1, wrapped = False\<rparr> \<and>
   (\<exists>rb'. Pop 0 \<lparr>data = [4, 5, 0::int], size_rb = 2, cap = 3, writerIdx = 2, readerIdx = 0,
                  lastWriterIdx = 1, wrapped = False\<rparr> = Some (rb', 4, True)) \<and>
   Get 0 \<lparr>data = [4, 5, 0::int], size_rb = 2, cap = 3, writerIdx = 2, readerIdx = 0,
          lastWriterIdx = 1, wrapped = False\<rparr> = Some (4, True)"
proof -
  have r: "run (0::int) 3 [OpPush 4, OpPush 5] =
     Some \<lparr>data = [4, 5, 0], size_rb = 2, cap = 3, writerIdx = 2, readerIdx = 0,
           lastWriterIdx = 1, wrapped = False\<rparr>"
    by (simp add: run_def New_def Push_def in_range_def cap_data_def shiftIdx_def
        numeral_3_eq_3)
  from Pop_Get_agree [OF r] r show ?thesis by simp
qed

section \<open>Push and TryPush\<close>

text \<open>
  Claim C10. In a reachable state a call to \<open>Push(x)\<close> returns and changes, among the
  slots, only the one at the write cursor before the call, which receives \<open>x\<close>; every
  other slot keeps its value, and the read cursor and the capacity are unchanged.
\<close>

theorem Push_frame:
  assumes "run z c ops = Some rb"
  shows "\<exists>rb'. Push x rb = Some rb' \<and>
           data rb' = (data rb)[nat (writerIdx rb) := x] \<and>
           length (data rb') = length (data rb) \<and>
           data rb' ! nat (writerIdx rb) = x \<and>
           (\<forall>i < length (data rb). i \<noteq> nat (writerIdx rb) \<longrightarrow> data rb' ! i = data rb ! i) \<and>
           readerIdx rb' = readerIdx rb \<and> cap rb' = cap rb"
proof -
  from run_Some_inv [OF assms] have r: "in_range (writerIdx rb) rb"
    by (simp add: rb_inv_def in_range_def cap_data_def)
  then have "nat (writerIdx rb) < length (data rb)"
    unfolding in_range_def by linarith
  with r show ?thesis
    by (simp add: Push_def Let_def shiftIdx_def cap_data_def)
qed

theorem Push_frame_witness:
  "run (0::int) 3 [OpPush 4, OpPush 5] =
     Some \<lparr>data = [4, 5, 0], size_rb = 2, cap = 3, writerIdx = 2, readerIdx = 0,
           lastWriterIdx = 1, wrapped = False\<rparr> \<and>
   (\<exists>rb'. Push 6 \<lparr>data = [4, 5, 0::int], size_rb = 2, cap = 3, writerIdx = 2, readerIdx = 0,
                   lastWriterIdx = 1, wrapped = False\<rparr> = Some rb' \<and>
          data rb' = [4, 5, 6] \<and> readerIdx rb' = 0 \<and> cap rb' = 3)"
proof -
  have r: "run (0::int) 3 [OpPush 4, OpPush 5] =
     Some \<lparr>data = [4, 5, 0], size_rb = 2, cap = 3, writerIdx = 2, readerIdx = 0,
           lastWriterIdx = 1, wrapped = False\<rparr>"
    by (simp add: run_def New_def Push_def in_range_def cap_data_def shiftIdx_def
        numeral_3_eq_3)
  from Push_frame [OF r, of 6] r show ?thesis by (auto simp: numeral_2_eq_2)
qed

text \<open>
  Claim C5. \<open>TryPush(x)\<close> returns \<open>ErrBufferIsFull\<close> and leaves the whole state
  unchanged if and only if the buffer is full; when it is not full, \<open>TryPush(x)\<close> does
  what \<open>Push(x)\<close> does and returns nil. In a reachable state, full means
  \<open>size = capacity\<close>, and on a buffer that is not full the push is carried out.
\<close>

theorem TryPush_spec:
  "(IsFull rb \<longrightarrow> TryPush x rb = Some (rb, Some ErrBufferIsFull)) \<and>
   (\<not> IsFull rb \<longrightarrow> TryPush x rb = map_option (\<lambda>rb'. (rb', None)) (Push x rb)) \<and>
   ((\<exists>rb'. TryPush x rb = Some (rb', Some ErrBufferIsFull)) \<longleftrightarrow> IsFull rb) \<and>
   (rb_inv rb \<longrightarrow>
      (IsFull rb \<longleftrightarrow> size_rb rb = cap rb) \<and>
      (size_rb rb \<noteq> cap rb \<longrightarrow>
         (\<exists>rb'. Push x rb = Some rb' \<and> TryPush x rb = Some (rb', None) \<and> rb' \<noteq> rb)))"
proof -
  have a: "IsFull rb \<longrightarrow> TryPush x rb = Some (rb, Some ErrBufferIsFull)"
    by (simp add: TryPush_def)
  have b: "\<not> IsFull rb \<longrightarrow> TryPush x rb = map_option (\<lambda>rb'. (rb', None)) (Push x rb)"
    by (simp add: TryPush_def split: option.splits)
  have c: "(\<exists>rb'. TryPush x rb = Some (rb', Some ErrBufferIsFull)) \<longleftrightarrow> IsFull rb"
    by (auto simp: TryPush_def split: option.splits)
  have d: "IsFull rb \<longleftrightarrow> size_rb rb = cap rb" if "rb_inv rb"
    using that by (simp add: IsFull_def rb_inv_def)
  have e: "\<exists>rb'. Push x rb = Some rb' \<and> TryPush x rb = Some (rb', None) \<and> rb' \<noteq> rb"
    if i: "rb_inv rb" and n: "size_rb rb \<noteq> cap rb"
  proof -
    from Push_inv [OF i, of x] obtain rb' where p: "Push x rb = Some rb'" by blast
    from i have "in_range (writerIdx rb) rb"
      by (simp add: rb_inv_def in_range_def cap_data_def)
    with p i n have "size_rb rb' = size_rb rb + 1"
      by (auto simp: Push_def Let_def rb_inv_def cap_data_def split: prod.splits if_splits)
    then have "rb' \<noteq> rb" by auto
    with p d [OF i] n show ?thesis by (simp add: TryPush_def)
  qed
  from a b c d e show ?thesis by blast
qed

theorem TryPush_spec_witness:
  "rb_inv \<lparr>data = [4, 5::int], size_rb = 2, cap = 2, writerIdx = 0, readerIdx = 0,
            lastWriterIdx = 1, wrapped = True\<rparr> \<and>
   TryPush 6 \<lparr>data = [4, 5::int], size_rb = 2, cap = 2, writerIdx = 0, readerIdx = 0,
              lastWriterIdx = 1, wrapped = True\<rparr>
     = Some (\<lparr>data = [4, 5], size_rb = 2, cap = 2, writerIdx = 0, readerIdx = 0,
              lastWriterIdx = 1, wrapped = True\<rparr>, Some ErrBufferIsFull) \<and>
   rb_inv \<lparr>data = [4, 0::int], size_rb = 1, cap = 2, writerIdx = 1, readerIdx = 0,
            lastWriterIdx = 0, wrapped = False\<rparr> \<and>
   TryPush 6 \<lparr>data = [4, 0::int], size_rb = 1, cap = 2, writerIdx = 1, readerIdx = 0,
              lastWriterIdx = 0, wrapped = False\<rparr>
     = Some (\<lparr>data = [4, 6], size_rb = 2, cap = 2, writerIdx = 0, readerIdx = 0,
              lastWriterIdx = 1, wrapped = True\<rparr>, None)"
  using TryPush_spec [of "\<lparr>data = [4, 5::int], size_rb = 2, cap = 2, writerIdx = 0,
      readerIdx = 0, lastWriterIdx = 1, wrapped = True\<rparr>" 6]
    TryPush_spec [of "\<lparr>data = [4, 0::int], size_rb = 1, cap = 2, writerIdx = 1,
      readerIdx = 0, lastWriterIdx = 0, wrapped = False\<rparr>" 6]
  by (simp add: rb_inv_def cap_data_def IsFull_def Push_def in_range_def shiftIdx_def)

section \<open>Clear and DeepClear\<close>

text \<open>
  Claim C4. \<open>Clear()\<close> on an empty buffer leaves the state unchanged; on a non-empty
  buffer it resets the write cursor, the read cursor and the wrapped flag to their
  initial values and the size to 0, and leaves every slot's contents unchanged.
\<close>

theorem Clear_spec:
  "(size_rb rb = 0 \<longrightarrow> Clear rb = rb) \<and>
   (size_rb rb \<noteq> 0 \<longrightarrow>
      writerIdx (Clear rb) = 0 \<and> readerIdx (Clear rb) = 0 \<and> \<not> wrapped (Clear rb) \<and>
      size_rb (Clear rb) = 0 \<and> data (Clear rb) = data rb \<and> cap (Clear rb) = cap rb)"
  by (simp add: Clear_def IsEmpty_def Size_def)

theorem Clear_spec_witness:
  "Clear \<lparr>data = [4, 5, 0::int], size_rb = 0, cap = 3, writerIdx = 2, readerIdx = 2,
          lastWriterIdx = 1, wrapped = False\<rparr>
     = \<lparr>data = [4, 5, 0], size_rb = 0, cap = 3, writerIdx = 2, readerIdx = 2,
        lastWriterIdx = 1, wrapped = False\<rparr> \<and>
   Clear \<lparr>data = [4, 5, 0::int], size_rb = 2, cap = 3, writerIdx = 2, readerIdx = 0,
          lastWriterIdx = 1, wrapped = False\<rparr>
     = \<lparr>data = [4, 5, 0], size_rb = 0, cap = 3, writerIdx = 0, readerIdx = 0,
        lastWriterIdx = 0, wrapped = False\<rparr>"
  using Clear_spec [of "\<lparr>data = [4, 5, 0::int], size_rb = 0, cap = 3, writerIdx = 2,
      readerIdx = 2, lastWriterIdx = 1, wrapped = False\<rparr>"]
    Clear_spec [of "\<lparr>data = [4, 5, 0::int], size_rb = 2, cap = 3, writerIdx = 2,
      readerIdx = 0, lastWriterIdx = 1, wrapped = False\<rparr>"]
  by (simp add: Clear_def IsEmpty_def Size_def)

text \<open>
  Claim C3, as stated: after any call to \<open>DeepClear()\<close>, also on a buffer that a
  preceding \<open>Clear()\<close> made logically empty, every slot holds the zero value. The code
  returns at once on an empty buffer, so the values that \<open>Clear()\<close> left in the slots
  stay there.
\<close>

theorem DeepClear_after_Clear_counterexample:
  "map_option data (run (0::int) 2 [OpPush 5, OpClear, OpDeepClear]) = Some [5, 0] \<and>
   map_option data (run (0::int) 2 [OpPush 5, OpClear, OpDeepClear]) \<noteq> Some (replicate 2 0)"
  by (simp add: run_def New_def Push_def in_range_def cap_data_def shiftIdx_def
      Clear_def DeepClear_def IsEmpty_def Size_def numeral_2_eq_2)

text \<open>
  Claim C3, amended: after a call to \<open>DeepClear()\<close> on a reachable buffer that is not
  empty, every one of the \<open>capacity\<close> slots holds the zero value and the size is 0; on
  an empty buffer \<open>DeepClear()\<close> changes nothing.
\<close>

theorem DeepClear_zeroes_nonempty:
  assumes "run z c ops = Some rb"
  shows "(size_rb rb \<noteq> 0 \<longrightarrow>
           (\<exists>rb'. DeepClear z rb = Some rb' \<and> data rb' = replicate (nat c) z \<and>
                  (\<forall>i < nat c. data rb' ! i = z) \<and> size_rb rb' = 0)) \<and>
         (size_rb rb = 0 \<longrightarrow> DeepClear z rb = Some rb)"
proof -
  from run_Some_inv [OF assms] have i: "rb_inv rb" and c: "cap rb = c" by simp_all
  from i c have "int (length (data rb)) = c"
    by (simp add: rb_inv_def cap_data_def)
  then have l: "length (data rb) = nat c" by linarith
  have "DeepClear z rb = Some rb" if "size_rb rb = 0"
    using that by (simp add: DeepClear_def IsEmpty_def Size_def)
  moreover have "\<exists>rb'. DeepClear z rb = Some rb' \<and> data rb' = replicate (nat c) z \<and>
                  (\<forall>i < nat c. data rb' ! i = z) \<and> size_rb rb' = 0" if n: "size_rb rb \<noteq> 0"
    using DeepClear_nonempty [OF n, of z] i l
    by (auto simp: rb_inv_def cap_data_def)
  ultimately show ?thesis by blast
qed

theorem DeepClear_zeroes_nonempty_witness:
  "run (0::int) 3 [OpPush 4, OpPush 5] =
     Some \<lparr>data = [4, 5, 0], size_rb = 2, cap = 3, writerIdx = 2, readerIdx = 0,
           lastWriterIdx = 1, wrapped = False\<rparr> \<and>
   (\<exists>rb'. DeepClear 0 \<lparr>data = [4, 5, 0::int], size_rb = 2, cap = 3, writerIdx = 2,
                        readerIdx = 0, lastWriterIdx = 1, wrapped = False\<rparr> = Some rb' \<and>
          data rb' = [0, 0, 0] \<and> size_rb rb' = 0)"
proof -
  have r: "run (0::int) 3 [OpPush 4, OpPush 5] =
     Some \<lparr>data = [4, 5, 0], size_rb = 2, cap = 3, writerIdx = 2, readerIdx = 0,
           lastWriterIdx = 1, wrapped = False\<rparr>"
    by (simp add: run_def New_def Push_def in_range_def cap_data_def shiftIdx_def
        numeral_3_eq_3)
  from DeepClear_zeroes_nonempty [OF r] r show ?thesis
    by (auto simp: numeral_3_eq_3)
qed

section \<open>Pushing past the capacity, then popping\<close>

lemma exec_append:
  "exec z (ops1 @ ops2) rb =
     (case exec z ops1 rb of None \<Rightarrow> None | Some rb' \<Rightarrow> exec z ops2 rb')"
  by (induction ops1 arbitrary: rb) (auto split: option.splits)

lemma mod_neq_near:
  fixes j m n :: nat
  assumes "j < m" and "m - j < n"
  shows "j mod n \<noteq> m mod n"
proof
  assume "j mod n = m mod n"
  then have "m mod n = j mod n" by simp
  with assms(1) have "n dvd m - j" by (simp add: mod_eq_dvd_iff_nat)
  moreover from assms have "0 < m - j" by simp
  ultimately show False using assms(2) nat_dvd_not_less by blast
qed

lemma rot_idx:
  fixes i k n :: nat
  assumes "i < n"
  shows "(k + (n - k mod n + i) mod n) mod n = i"
proof -
  have "(k + (n - k mod n + i) mod n) mod n = (k + (n - k mod n + i)) mod n"
    by (simp add: mod_add_right_eq)
  also have "k + (n - k mod n + i) = (k div n) * n + k mod n + (n - k mod n + i)"
    by simp
  also have "\<dots> = (k div n) * n + (k mod n + (n - k mod n)) + i"
    by simp
  also have "k mod n + (n - k mod n) = n"
    using assms by simp
  also have "(k div n) * n + n + i = i + (k div n + 1) * n"
    by simp
  also have "\<dots> mod n = i mod n" by (rule mod_mult_self1)
  finally show ?thesis using assms by simp
qed


lemma inv_length: "rb_inv rb \<Longrightarrow> length (data rb) = nat (cap rb)"
  unfolding rb_inv_def cap_data_def by linarith

lemma Push_step:
  assumes "rb_inv rb"
  shows "Push x rb =
     Some (rb\<lparr>data := (data rb)[nat (writerIdx rb) := x],
              lastWriterIdx := writerIdx rb,
              size_rb := (if size_rb rb < cap rb then size_rb rb + 1 else size_rb rb),
              writerIdx := (if writerIdx rb < cap rb - 1 then writerIdx rb + 1 else 0),
              wrapped := (if writerIdx rb < cap rb - 1 then wrapped rb else True)\<rparr>)"
  using assms
  by (simp add: Push_def rb_inv_def in_range_def cap_data_def shiftIdx_def Let_def)

lemma Pop_step:
  assumes "rb_inv rb" and "size_rb rb \<noteq> 0"
  shows "Pop z rb =
     Some (rb\<lparr>data := (data rb)[nat (readerIdx rb) := z],
              size_rb := size_rb rb - 1,
              readerIdx := (if readerIdx rb < cap rb - 1 then readerIdx rb + 1 else 0),
              wrapped := (if readerIdx rb < cap rb - 1 then wrapped rb else False)\<rparr>,
           data rb ! nat (readerIdx rb), True)"
  using assms
  by (simp add: Pop_def writeZeroVal_def rb_inv_def in_range_def cap_data_def
      shiftIdx_def Let_def)

lemma succ_mod_int:
  fixes a c :: int
  assumes "1 \<le> c"
  shows "(a + 1) mod c = (if a mod c < c - 1 then a mod c + 1 else 0)"
proof -
  have b: "0 \<le> a mod c" "a mod c < c" using assms by simp_all
  have e: "(a + 1) mod c = (a mod c + 1) mod c" by (simp add: mod_add_left_eq)
  show ?thesis
  proof (cases "a mod c < c - 1")
    case True
    with b have "(a mod c + 1) mod c = a mod c + 1" by (simp add: mod_pos_pos_trivial)
    with e True show ?thesis by simp
  next
    case False
    with b have "a mod c + 1 = c" by simp
    with e False show ?thesis by simp
  qed
qed

lemma pushes_from:
  assumes i0: "rb_inv rb0" and s0: "size_rb rb0 = 0"
  shows "\<exists>rb. exec z (map OpPush xs) rb0 = Some rb \<and> rb_inv rb \<and>
           size_rb rb = min (int (length xs)) (cap rb0) \<and>
           writerIdx rb = (writerIdx rb0 + int (length xs)) mod cap rb0 \<and>
           readerIdx rb = readerIdx rb0 \<and> cap rb = cap rb0 \<and>
           (\<forall>j < length xs. length xs - j \<le> nat (cap rb0) \<longrightarrow>
              data rb ! ((nat (writerIdx rb0) + j) mod nat (cap rb0)) = xs ! j)"
proof (induction xs rule: rev_induct)
  case Nil
  from i0 s0 show ?case by (simp add: rb_inv_def)
next
  case (snoc x xs)
  let ?c = "cap rb0"
  let ?n = "nat ?c"
  from snoc obtain rb where r: "exec z (map OpPush xs) rb0 = Some rb" and i: "rb_inv rb"
    and s: "size_rb rb = min (int (length xs)) ?c"
    and w: "writerIdx rb = (writerIdx rb0 + int (length xs)) mod ?c"
    and rd: "readerIdx rb = readerIdx rb0"
    and c: "cap rb = ?c"
    and d: "\<forall>j < length xs. length xs - j \<le> ?n \<longrightarrow>
              data rb ! ((nat (writerIdx rb0) + j) mod ?n) = xs ! j"
    by blast
  have c1: "1 \<le> ?c" using i0 by (simp add: rb_inv_def)
  have w0: "0 \<le> writerIdx rb0" using i0 by (simp add: rb_inv_def)
  have n0: "0 < ?n" using c1 by simp
  have len: "length (data rb) = ?n"
    using inv_length [OF i] c by simp
  have "int ((nat (writerIdx rb0) + length xs) mod ?n) = (writerIdx rb0 + int (length xs)) mod ?c"
    using w0 c1 by (simp add: zmod_int)
  with w have wn: "nat (writerIdx rb) = (nat (writerIdx rb0) + length xs) mod ?n"
    by linarith
  let ?rb' = "rb\<lparr>data := (data rb)[nat (writerIdx rb) := x],
              lastWriterIdx := writerIdx rb,
              size_rb := (if size_rb rb < cap rb then size_rb rb + 1 else size_rb rb),
              writerIdx := (if writerIdx rb < cap rb - 1 then writerIdx rb + 1 else 0),
              wrapped := (if writerIdx rb < cap rb - 1 then wrapped rb else True)\<rparr>"
  have p: "Push x rb = Some ?rb'" by (rule Push_step [OF i])
  have run': "exec z (map OpPush (xs @ [x])) rb0 = Some ?rb'"
    using r p by (simp add: exec_append)
  have inv': "rb_inv ?rb'"
    using Push_inv [OF i, of x] p by simp
  have s': "size_rb ?rb' = min (int (length (xs @ [x]))) ?c"
    using s c by auto
  have w': "writerIdx ?rb' = (writerIdx rb0 + int (length (xs @ [x]))) mod ?c"
  proof -
    have "writerIdx rb0 + int (length (xs @ [x])) = writerIdx rb0 + int (length xs) + 1"
      by simp
    then have "(writerIdx rb0 + int (length (xs @ [x]))) mod ?c =
        (if writerIdx rb < ?c - 1 then writerIdx rb + 1 else 0)"
      using succ_mod_int [OF c1, of "writerIdx rb0 + int (length xs)"] w by presburger
    with c show ?thesis by simp
  qed
  have d': "data ?rb' ! ((nat (writerIdx rb0) + j) mod ?n) = (xs @ [x]) ! j"
    if j: "j < length (xs @ [x])" and near: "length (xs @ [x]) - j \<le> ?n" for j
  proof (cases "j = length xs")
    case True
    then show ?thesis using wn len n0 by simp
  next
    case False
    with j have jl: "j < length xs" by simp
    then have a: "nat (writerIdx rb0) + j < nat (writerIdx rb0) + length xs" by simp
    from jl near have "nat (writerIdx rb0) + length xs - (nat (writerIdx rb0) + j) < ?n"
      by simp
    from mod_neq_near [OF a this]
    have "(nat (writerIdx rb0) + j) mod ?n \<noteq> (nat (writerIdx rb0) + length xs) mod ?n" .
    moreover from jl near have "length xs - j \<le> ?n" by simp
    ultimately show ?thesis using d jl wn by (simp add: nth_append)
  qed
  from run' inv' s' w' d' rd c show ?case
    by (intro exI [of _ ?rb']) simp
qed

lemma PopN_empty:
  "size_rb rb = 0 \<Longrightarrow> PopN z m rb = Some (replicate m (z, False), rb)"
  by (induction m) (simp_all add: Pop_def)

lemma PopN_all:
  "rb_inv rb \<Longrightarrow> size_rb rb = int n \<Longrightarrow>
   map_option fst (PopN z (n + m) rb) =
     Some (map (\<lambda>i. (data rb ! ((nat (readerIdx rb) + i) mod nat (cap rb)), True)) [0..<n]
           @ replicate m (z, False))"
proof (induction n arbitrary: rb)
  case 0
  then show ?case by (simp add: PopN_empty)
next
  case (Suc n)
  let ?r = "nat (readerIdx rb)"
  let ?c = "nat (cap rb)"
  let ?rb1 = "rb\<lparr>data := (data rb)[?r := z],
              size_rb := size_rb rb - 1,
              readerIdx := (if readerIdx rb < cap rb - 1 then readerIdx rb + 1 else 0),
              wrapped := (if readerIdx rb < cap rb - 1 then wrapped rb else False)\<rparr>"
  have ne: "size_rb rb \<noteq> 0" using Suc.prems by simp
  have p: "Pop z rb = Some (?rb1, data rb ! ?r, True)"
    by (rule Pop_step [OF Suc.prems(1) ne])
  have inv1: "rb_inv ?rb1"
    using Pop_inv [OF Suc.prems(1), of z] p by simp
  have s1: "size_rb ?rb1 = int n" using Suc.prems by simp
  have rc: "?r < ?c" and r0: "0 \<le> readerIdx rb" and c1: "1 \<le> cap rb"
    using Suc.prems(1) by (auto simp: rb_inv_def)
  have nc: "Suc n \<le> ?c"
    using Suc.prems by (auto simp: rb_inv_def)
  have r1: "nat (readerIdx ?rb1) = Suc ?r mod ?c"
  proof (cases "readerIdx rb < cap rb - 1")
    case True
    then have "Suc ?r < ?c" using r0 by linarith
    with True r0 show ?thesis by (simp add: nat_add_distrib)
  next
    case False
    with rc r0 have "Suc ?r = ?c" by linarith
    with False show ?thesis by simp
  qed
  have t: "data ?rb1 ! ((nat (readerIdx ?rb1) + i) mod nat (cap ?rb1))
             = data rb ! ((?r + Suc i) mod ?c)" if "i < n" for i
  proof -
    have e: "(nat (readerIdx ?rb1) + i) mod ?c = (?r + Suc i) mod ?c"
      unfolding r1 by (simp add: mod_add_left_eq)
    have "?r < ?r + Suc i" by simp
    moreover have "?r + Suc i - ?r < ?c" using that nc by simp
    ultimately have "?r mod ?c \<noteq> (?r + Suc i) mod ?c" by (rule mod_neq_near)
    with rc have "(?r + Suc i) mod ?c \<noteq> ?r" by simp
    with e show ?thesis by simp
  qed
  have h: "data rb ! ?r = data rb ! ((?r + 0) mod ?c)" using rc by simp
  from Suc.IH [OF inv1 s1, of ] obtain rs rb2 where
    q: "PopN z (n + m) ?rb1 = Some (rs, rb2)"
    and rs: "rs = map (\<lambda>i. (data ?rb1 ! ((nat (readerIdx ?rb1) + i) mod nat (cap ?rb1)), True)) [0..<n]
           @ replicate m (z, False)"
    by (cases "PopN z (n + m) ?rb1") auto
  have "map (\<lambda>i. (data ?rb1 ! ((nat (readerIdx ?rb1) + i) mod nat (cap ?rb1)), True)) [0..<n]
      = map (\<lambda>i. (data rb ! ((?r + Suc i) mod ?c), True)) [0..<n]"
    using t by simp
  also have "\<dots> = map (\<lambda>i. (data rb ! ((?r + i) mod ?c), True)) (map Suc [0..<n])"
    by (simp add: comp_def)
  finally have tl: "map (\<lambda>i. (data ?rb1 ! ((nat (readerIdx ?rb1) + i) mod nat (cap ?rb1)), True)) [0..<n]
      = map (\<lambda>i. (data rb ! ((?r + i) mod ?c), True)) [Suc 0..<Suc n]"
    by (simp only: map_Suc_upt)
  have up: "[0..<Suc n] = 0 # [Suc 0..<Suc n]" by (simp add: upt_conv_Cons)
  have "map_option fst (PopN z (Suc n + m) rb) = Some ((data rb ! ?r, True) # rs)"
    using p q by simp
  also have "(data rb ! ?r, True) # rs =
      map (\<lambda>i. (data rb ! ((?r + i) mod ?c), True)) [0..<Suc n] @ replicate m (z, False)"
    unfolding rs tl up using rc by simp
  finally show ?case .
qed


lemma rot_gen:
  fixes xs :: "'a list" and n k m :: nat
  assumes lx: "length xs = n + k" and ly: "length ys = n"
    and y: "\<forall>i < n. ys ! i = xs ! (k + (m + i) mod n)"
  shows "ys = rotate m (drop k xs)"
proof (rule nth_equalityI)
  show "length ys = length (rotate m (drop k xs))" using lx ly by simp
next
  fix i assume "i < length ys"
  then have i: "i < n" using ly by simp
  then have "(m + i) mod n < n" by simp
  then have "rotate m (drop k xs) ! i = xs ! (k + (m + i) mod n)"
    using i lx by (simp add: nth_rotate)
  with y i show "ys ! i = rotate m (drop k xs) ! i" by simp
qed

lemma rot_idx_cursors:
  fixes R W k i n :: nat
  assumes n0: "0 < n"
  shows "(W + (k + (nat ((int R - int W - int k) mod int n) + i) mod n)) mod n = (R + i) mod n"
proof -
  let ?c = "int n"
  let ?m = "nat ((int R - int W - int k) mod ?c)"
  have c0: "0 < ?c" using n0 by simp
  have m: "int ?m = (int R - int W - int k) mod ?c" using c0 by simp
  have "int ((W + (k + (?m + i) mod n)) mod n)
      = (int W + (int k + (int ?m + int i) mod ?c)) mod ?c"
    by (simp add: zmod_int)
  also have "\<dots> = (int W + (int k + ((int R - int W - int k) mod ?c + int i) mod ?c)) mod ?c"
    by (simp only: m)
  also have "\<dots> = (int W + int k + ((int R - int W - int k) mod ?c + int i) mod ?c) mod ?c"
    by (simp only: add.assoc)
  also have "\<dots> = (int W + int k + ((int R - int W - int k) + int i)) mod ?c"
    by (simp only: mod_add_right_eq mod_add_left_eq)
  also have "\<dots> = (int R + int i) mod ?c" by (simp add: algebra_simps)
  also have "\<dots> = int ((R + i) mod n)" by (simp add: zmod_int)
  finally show ?thesis by linarith
qed

lemma rot_idx_same:
  fixes W k i n :: nat
  assumes "i < n"
  shows "(W + (k + (n - k mod n + i) mod n)) mod n = (W + i) mod n"
proof -
  have "(W + (k + (n - k mod n + i) mod n)) mod n
      = (W + (k + (n - k mod n + i) mod n) mod n) mod n"
    by (rule mod_add_right_eq [symmetric])
  also have "(k + (n - k mod n + i) mod n) mod n = i" by (rule rot_idx [OF assms])
  finally show ?thesis .
qed

text \<open>
  Claim C1, as stated: starting from an empty buffer of capacity \<open>c\<close>, after \<open>c + k\<close>
  calls to \<open>Push\<close>, repeated \<open>Pop\<close> returns the last \<open>c\<close> pushed items in push order
  and then reports empty. With capacity 3 and the pushes 1 to 7 the pops return
  7, 5, 6 and not 5, 6, 7: \<open>Push\<close> on a full buffer does not move the read cursor.
\<close>

theorem push_order_counterexample:
  "push_then_pop 0 3 [1, 2, 3, 4, 5, 6, 7::int] (nat 3 + 1) =
     Some [(7, True), (5, True), (6, True), (0, False)] \<and>
   push_then_pop 0 3 [1, 2, 3, 4, 5, 6, 7::int] (nat 3 + 1) \<noteq>
     Some (map (\<lambda>x. (x, True)) (drop 4 [1, 2, 3, 4, 5, 6, 7::int]) @ [(0, False)])"
  by code_simp


text \<open>
  Claim C1, amended: starting from an empty buffer of capacity \<open>c\<close> (any reachable
  state with size 0), after \<open>c + k\<close> calls to \<open>Push\<close> (\<open>k \<ge> 0\<close>) with items
  \<open>x1 .. x(c+k)\<close>, repeated \<open>Pop\<close> returns exactly the last \<open>c\<close> pushed items and then
  reports empty. The items come slot by slot from the read cursor on, which is the
  push order rotated left by \<open>(readerIdx - writerIdx - k) mod c\<close> places, for the
  cursors of the empty buffer. When the two cursors are equal, as in a newly
  constructed buffer or one that \<open>Clear\<close> has reset, that is a rotation by
  \<open>c - k mod c\<close> places, and the push order itself when \<open>k\<close> is a multiple of \<open>c\<close>.
\<close>

theorem push_overflow_pop_order:
  assumes "run z c ops = Some rb" and "size_rb rb = 0" and "length xs = nat c + k"
  shows "pushes_then_pops z rb xs (nat c + 1) =
           Some (map (\<lambda>x. (x, True))
                   (rotate (nat ((readerIdx rb - writerIdx rb - int k) mod c)) (drop k xs))
                 @ [(z, False)]) \<and>
         (readerIdx rb = writerIdx rb \<longrightarrow>
            pushes_then_pops z rb xs (nat c + 1) =
              Some (map (\<lambda>x. (x, True)) (rotate (nat c - k mod nat c) (drop k xs))
                    @ [(z, False)])) \<and>
         (readerIdx rb = writerIdx rb \<and> k mod nat c = 0 \<longrightarrow>
            pushes_then_pops z rb xs (nat c + 1) =
              Some (map (\<lambda>x. (x, True)) (drop k xs) @ [(z, False)]))"
proof -
  let ?n = "nat c"
  let ?R = "nat (readerIdx rb)"
  let ?W = "nat (writerIdx rb)"
  from run_Some_inv [OF assms(1)] have i0: "rb_inv rb" and c0: "cap rb = c" by simp_all
  have c1: "1 \<le> c" using i0 c0 by (simp add: rb_inv_def)
  have n0: "0 < ?n" using c1 by simp
  have cn: "c = int ?n" using c1 by simp
  have R: "readerIdx rb = int ?R" and W: "writerIdx rb = int ?W"
    using i0 by (simp_all add: rb_inv_def)
  from pushes_from [OF i0 assms(2), of z xs] c0 obtain rb' where
    r: "exec z (map OpPush xs) rb = Some rb'" and i: "rb_inv rb'"
    and s: "size_rb rb' = min (int (length xs)) c"
    and rd: "readerIdx rb' = readerIdx rb" and c: "cap rb' = c"
    and d: "\<forall>j < length xs. length xs - j \<le> ?n \<longrightarrow> data rb' ! ((?W + j) mod ?n) = xs ! j"
    by auto
  let ?ys = "map (\<lambda>i. data rb' ! ((?R + i) mod ?n)) [0..<?n]"
  have s': "size_rb rb' = int ?n" using s assms(3) c1 by simp
  from PopN_all [OF i s', of z 1] rd c
  have "map_option fst (PopN z (?n + 1) rb') =
          Some (map (\<lambda>i. (data rb' ! ((?R + i) mod ?n), True)) [0..<?n] @ [(z, False)])"
    by simp
  also have "map (\<lambda>i. (data rb' ! ((?R + i) mod ?n), True)) [0..<?n]
      = map (\<lambda>x. (x, True)) ?ys"
    by (simp add: comp_def)
  finally have pops: "pushes_then_pops z rb xs (?n + 1) =
      Some (map (\<lambda>x. (x, True)) ?ys @ [(z, False)])"
    using r by (simp add: pushes_then_pops_def)
  have slot: "?ys ! i = xs ! (k + t)"
    if i: "i < ?n" and t: "t < ?n" and e: "(?W + (k + t)) mod ?n = (?R + i) mod ?n" for i t
  proof -
    have "k + t < length xs" and "length xs - (k + t) \<le> ?n"
      using t assms(3) by simp_all
    with d have "data rb' ! ((?W + (k + t)) mod ?n) = xs ! (k + t)" by blast
    with e i show ?thesis by simp
  qed
  have g: "?ys = rotate (nat ((readerIdx rb - writerIdx rb - int k) mod c)) (drop k xs)"
  proof (rule rot_gen [OF assms(3)])
    show "length ?ys = ?n" by simp
  next
    let ?m = "nat ((readerIdx rb - writerIdx rb - int k) mod c)"
    have m: "?m = nat ((int ?R - int ?W - int k) mod int ?n)"
      using R W cn by simp
    show "\<forall>i < ?n. ?ys ! i = xs ! (k + (?m + i) mod ?n)"
    proof (intro allI impI)
      fix i assume i: "i < ?n"
      have t: "(?m + i) mod ?n < ?n" using n0 by simp
      have "(?W + (k + (?m + i) mod ?n)) mod ?n = (?R + i) mod ?n"
        unfolding m by (rule rot_idx_cursors [OF n0])
      from slot [OF i t this] show "?ys ! i = xs ! (k + (?m + i) mod ?n)" .
    qed
  qed
  have g2: "?ys = rotate (?n - k mod ?n) (drop k xs)" if eq: "readerIdx rb = writerIdx rb"
  proof (rule rot_gen [OF assms(3)])
    show "length ?ys = ?n" by simp
  next
    show "\<forall>i < ?n. ?ys ! i = xs ! (k + (?n - k mod ?n + i) mod ?n)"
    proof (intro allI impI)
      fix i assume i: "i < ?n"
      have t: "(?n - k mod ?n + i) mod ?n < ?n" using n0 by simp
      have "(?W + (k + (?n - k mod ?n + i) mod ?n)) mod ?n = (?R + i) mod ?n"
        using rot_idx_same [OF i, of ?W k] eq by simp
      from slot [OF i t this] show "?ys ! i = xs ! (k + (?n - k mod ?n + i) mod ?n)" .
    qed
  qed
  have g3: "?ys = drop k xs" if eq: "readerIdx rb = writerIdx rb" and k0: "k mod ?n = 0"
  proof -
    have "rotate (?n - k mod ?n) (drop k xs) = drop k xs"
      using k0 assms(3) by simp
    with g2 [OF eq] show ?thesis by simp
  qed
  from pops g have a: "pushes_then_pops z rb xs (?n + 1) =
           Some (map (\<lambda>x. (x, True))
                   (rotate (nat ((readerIdx rb - writerIdx rb - int k) mod c)) (drop k xs))
                 @ [(z, False)])"
    by (simp only:)
  have b: "readerIdx rb = writerIdx rb \<longrightarrow>
            pushes_then_pops z rb xs (?n + 1) =
              Some (map (\<lambda>x. (x, True)) (rotate (?n - k mod ?n) (drop k xs))
                    @ [(z, False)])"
  proof
    assume "readerIdx rb = writerIdx rb"
    from pops g2 [OF this] show "pushes_then_pops z rb xs (?n + 1) =
              Some (map (\<lambda>x. (x, True)) (rotate (?n - k mod ?n) (drop k xs))
                    @ [(z, False)])"
      by (simp only:)
  qed
  have c: "readerIdx rb = writerIdx rb \<and> k mod ?n = 0 \<longrightarrow>
            pushes_then_pops z rb xs (?n + 1) =
              Some (map (\<lambda>x. (x, True)) (drop k xs) @ [(z, False)])"
  proof
    assume h: "readerIdx rb = writerIdx rb \<and> k mod ?n = 0"
    then have e1: "readerIdx rb = writerIdx rb" and e2: "k mod ?n = 0" by simp_all
    have "?ys = drop k xs" by (rule g3 [OF e1 e2])
    with pops show "pushes_then_pops z rb xs (?n + 1) =
              Some (map (\<lambda>x. (x, True)) (drop k xs) @ [(z, False)])"
      by (simp only:)
  qed
  from a b c show ?thesis by blast
qed

theorem push_overflow_pop_order_witness:
  "run (0::int) 3 [OpPush 1, OpPush 2, OpPush 3, OpPush 4, OpPop, OpPop, OpPop] =
     Some \<lparr>data = [0, 0, 0], size_rb = 0, cap = 3, writerIdx = 1, readerIdx = 0,
           lastWriterIdx = 0, wrapped = False\<rparr> \<and>
   length [5, 6, 7, 8::int] = nat 3 + 1 \<and>
   pushes_then_pops 0 \<lparr>data = [0, 0, 0::int], size_rb = 0, cap = 3, writerIdx = 1,
       readerIdx = 0, lastWriterIdx = 0, wrapped = False\<rparr> [5, 6, 7, 8] (nat 3 + 1) =
     Some [(7, True), (8, True), (6, True), (0, False)] \<and>
   run (0::int) 3 [OpPush 9, OpClear] =
     Some \<lparr>data = [9, 0, 0], size_rb = 0, cap = 3, writerIdx = 0, readerIdx = 0,
           lastWriterIdx = 0, wrapped = False\<rparr> \<and>
   length [1, 2, 3, 4, 5, 6, 7::int] = nat 3 + 4 \<and>
   pushes_then_pops 0 \<lparr>data = [9, 0, 0::int], size_rb = 0, cap = 3, writerIdx = 0,
       readerIdx = 0, lastWriterIdx = 0, wrapped = False\<rparr> [1, 2, 3, 4, 5, 6, 7] (nat 3 + 1) =
     Some [(7, True), (5, True), (6, True), (0, False)] \<and>
   run (0::int) 3 [OpPush 9, OpPop] =
     Some \<lparr>data = [0, 0, 0], size_rb = 0, cap = 3, writerIdx = 1, readerIdx = 1,
           lastWriterIdx = 0, wrapped = False\<rparr> \<and>
   length [1, 2, 3, 4, 5, 6::int] = nat 3 + 3 \<and> 3 mod nat 3 = (0::nat) \<and>
   pushes_then_pops 0 \<lparr>data = [0, 0, 0::int], size_rb = 0, cap = 3, writerIdx = 1,
       readerIdx = 1, lastWriterIdx = 0, wrapped = False\<rparr> [1, 2, 3, 4, 5, 6] (nat 3 + 1) =
     Some [(4, True), (5, True), (6, True), (0, False)]"
proof -
  let ?A = "\<lparr>data = [0, 0, 0::int], size_rb = 0, cap = 3, writerIdx = 1,
       readerIdx = 0, lastWriterIdx = 0, wrapped = False\<rparr>"
  let ?B = "\<lparr>data = [9, 0, 0::int], size_rb = 0, cap = 3, writerIdx = 0,
       readerIdx = 0, lastWriterIdx = 0, wrapped = False\<rparr>"
  let ?C = "\<lparr>data = [0, 0, 0::int], size_rb = 0, cap = 3, writerIdx = 1,
       readerIdx = 1, lastWriterIdx = 0, wrapped = False\<rparr>"
  have rA: "run (0::int) 3 [OpPush 1, OpPush 2, OpPush 3, OpPush 4, OpPop, OpPop, OpPop] = Some ?A"
    by code_simp
  have rB: "run (0::int) 3 [OpPush 9, OpClear] = Some ?B" by code_simp
  have rC: "run (0::int) 3 [OpPush 9, OpPop] = Some ?C" by code_simp
  have sA: "size_rb ?A = 0" and sB: "size_rb ?B = 0" and sC: "size_rb ?C = 0" by simp_all
  have lA: "length [5, 6, 7, 8::int] = nat 3 + 1" by simp
  have lB: "length [1, 2, 3, 4, 5, 6, 7::int] = nat 3 + 4" by simp
  have lC: "length [1, 2, 3, 4, 5, 6::int] = nat 3 + 3" by simp
  have kC: "3 mod nat 3 = (0::nat)" by simp
  have eA: "map (\<lambda>x. (x, True))
              (rotate (nat ((readerIdx ?A - writerIdx ?A - int 1) mod 3)) (drop 1 [5, 6, 7, 8::int]))
            @ [(0, False)] = [(7, True), (8, True), (6, True), (0, False)]"
    by code_simp
  have eB: "map (\<lambda>x. (x, True)) (rotate (nat 3 - 4 mod nat 3) (drop 4 [1, 2, 3, 4, 5, 6, 7::int]))
            @ [(0, False)] = [(7, True), (5, True), (6, True), (0, False)]"
    by code_simp
  have eC: "map (\<lambda>x. (x, True)) (drop 3 [1, 2, 3, 4, 5, 6::int]) @ [(0, False)]
              = [(4, True), (5, True), (6, True), (0, False)]"
    by code_simp
  note tA = push_overflow_pop_order [OF rA sA lA]
  note tB = push_overflow_pop_order [OF rB sB lB]
  note tC = push_overflow_pop_order [OF rC sC lC]
  have a: "pushes_then_pops 0 ?A [5, 6, 7, 8] (nat 3 + 1) =
     Some [(7, True), (8, True), (6, True), (0, False)]"
    using tA [THEN conjunct1] eA by (simp only:)
  have "readerIdx ?B = writerIdx ?B" by simp
  with tB have "pushes_then_pops 0 ?B [1, 2, 3, 4, 5, 6, 7] (nat 3 + 1) =
      Some (map (\<lambda>x. (x, True)) (rotate (nat 3 - 4 mod nat 3) (drop 4 [1, 2, 3, 4, 5, 6, 7::int]))
            @ [(0, False)])"
    by blast
  with eB have b: "pushes_then_pops 0 ?B [1, 2, 3, 4, 5, 6, 7] (nat 3 + 1) =
     Some [(7, True), (5, True), (6, True), (0, False)]"
    by (simp only:)
  have "readerIdx ?C = writerIdx ?C" by simp
  with tC kC have "pushes_then_pops 0 ?C [1, 2, 3, 4, 5, 6] (nat 3 + 1) =
      Some (map (\<lambda>x. (x, True)) (drop 3 [1, 2, 3, 4, 5, 6::int]) @ [(0, False)])"
    by blast
  with eC have c: "pushes_then_pops 0 ?C [1, 2, 3, 4, 5, 6] (nat 3 + 1) =
     Some [(4, True), (5, True), (6, True), (0, False)]"
    by (simp only:)
  from rA lA a rB lB b rC lC kC c show ?thesis by blast
qed


section \<open>The window of live slots\<close>

text \<open>
  Claim C2, as stated: in every reachable state, when \<open>0 < size < capacity\<close> exactly
  the slots in the window \<open>[readerIdx, writerIdx)\<close> modulo capacity are live; when
  \<open>size = capacity\<close> all slots are live; when \<open>size = 0\<close> none is. With capacity 3,
  after the pushes 1 to 5 and one \<open>Pop\<close> the cursors are \<open>readerIdx = 1\<close> and
  \<open>writerIdx = 2\<close> with size 2, and the slots 1 and 2 both hold pushed values that
  have not been popped.
\<close>

theorem live_window_counterexample:
  "run_live (0::int) 3 [OpPush 1, OpPush 2, OpPush 3, OpPush 4, OpPush 5, OpPop]
     = Some (\<lparr>data = [0, 5, 3], size_rb = 2, cap = 3, writerIdx = 2, readerIdx = 1,
              lastWriterIdx = 1, wrapped = True\<rparr>, {1, 2}) \<and>
   \<not> live_window \<lparr>data = [0, 5, 3::int], size_rb = 2, cap = 3, writerIdx = 2, readerIdx = 1,
              lastWriterIdx = 1, wrapped = True\<rparr> {1, 2}"
proof
  show "run_live (0::int) 3 [OpPush 1, OpPush 2, OpPush 3, OpPush 4, OpPush 5, OpPop]
     = Some (\<lparr>data = [0, 5, 3], size_rb = 2, cap = 3, writerIdx = 2, readerIdx = 1,
              lastWriterIdx = 1, wrapped = True\<rparr>, {1, 2})"
    by code_simp
next
  have "(2::int) \<in> {1, 2}" by simp
  moreover have "(2::int) \<notin> {1..<2}" by simp
  ultimately have "{1, 2::int} \<noteq> {1..<2}" by blast
  then show "\<not> live_window \<lparr>data = [0, 5, 3::int], size_rb = 2, cap = 3, writerIdx = 2,
      readerIdx = 1, lastWriterIdx = 1, wrapped = True\<rparr> {1, 2}"
    by (simp add: live_window_def window_def)
qed

lemma live_inv_window:
  assumes "live_inv rb L"
  shows "live_window rb L"
  using assms
  unfolding live_inv_def live_window_def window_def seg_def rb_inv_def
  by (auto split: if_splits)


lemma live_inv_New:
  assumes "1 \<le> c"
  shows "live_inv \<lparr>data = replicate (nat c) z, size_rb = 0, cap = c,
                  writerIdx = 0, readerIdx = 0, lastWriterIdx = 0, wrapped = False\<rparr> {}"
  using assms by (auto simp: live_inv_def rb_inv_def cap_data_def seg_def)

lemma live_inv_Push:
  assumes "live_inv rb L" and "\<not> IsFull rb"
  shows "\<exists>rb'. Push x rb = Some rb' \<and> live_inv rb' (insert (writerIdx rb) L)"
proof -
  from assms(1) have i: "rb_inv rb" by (simp add: live_inv_def)
  note p = Push_step [OF i, of x]
  from assms i have "live_inv (the (Push x rb)) (insert (writerIdx rb) L)"
    unfolding p live_inv_def rb_inv_def IsFull_def cap_data_def seg_def
    by (auto split: if_splits)
  with p show ?thesis by simp
qed

lemma live_inv_Pop:
  assumes "live_inv rb L" and "size_rb rb \<noteq> 0"
  shows "\<exists>rb' v ok. Pop z rb = Some (rb', v, ok) \<and> live_inv rb' (L - {readerIdx rb})"
proof -
  from assms(1) have i: "rb_inv rb" by (simp add: live_inv_def)
  note p = Pop_step [OF i assms(2), of z]
  from assms i have "live_inv (fst (the (Pop z rb))) (L - {readerIdx rb})"
    unfolding p live_inv_def rb_inv_def cap_data_def seg_def
    by (auto split: if_splits)
  with p show ?thesis by auto
qed

lemma live_inv_Clear:
  assumes "live_inv rb L" and "size_rb rb \<noteq> 0"
  shows "live_inv (Clear rb) {}"
  using assms
  unfolding live_inv_def rb_inv_def cap_data_def seg_def Clear_def IsEmpty_def Size_def
  by auto

lemma live_inv_step:
  assumes "live_inv rb L" and "no_overwrite opn rb"
  shows "\<exists>rb'. apply_op z opn rb = Some rb' \<and> live_inv rb' (live_op opn rb L)"
proof (cases opn)
  case (OpPush x)
  with assms live_inv_Push [of rb L x] show ?thesis by simp
next
  case (OpTryPush x)
  show ?thesis
  proof (cases "IsFull rb")
    case True
    with OpTryPush assms show ?thesis by (simp add: TryPush_def)
  next
    case False
    with OpTryPush assms live_inv_Push [of rb L x] show ?thesis
      by (auto simp: TryPush_def)
  qed
next
  case OpPop
  show ?thesis
  proof (cases "size_rb rb = 0")
    case True
    with OpPop assms show ?thesis by (simp add: Pop_def)
  next
    case False
    with OpPop assms live_inv_Pop [of rb L z] show ?thesis by auto
  qed
next
  case OpGet
  from assms(1) have "rb_inv rb" by (simp add: live_inv_def)
  from Get_inv [OF this, of z] OpGet assms show ?thesis by auto
next
  case OpClear
  show ?thesis
  proof (cases "size_rb rb = 0")
    case True
    with OpClear assms show ?thesis by (simp add: Clear_def IsEmpty_def Size_def)
  next
    case False
    with OpClear assms live_inv_Clear [of rb L] show ?thesis
      by (simp add: IsEmpty_def Size_def)
  qed
next
  case OpDeepClear
  with assms show ?thesis by (simp add: DeepClear_def)
qed

lemma live_inv_exec:
  "live_inv rb L \<Longrightarrow> no_overwrites z ops rb \<Longrightarrow>
   \<exists>rb' L'. exec_live z ops rb L = Some (rb', L') \<and> live_inv rb' L'"
proof (induction ops arbitrary: rb L)
  case Nil
  then show ?case by simp
next
  case (Cons opn ops)
  from Cons.prems(2) have n: "no_overwrite opn rb" by simp
  from live_inv_step [OF Cons.prems(1) n, of z] obtain rb1 where
    a: "apply_op z opn rb = Some rb1" and i: "live_inv rb1 (live_op opn rb L)" by blast
  from Cons.prems(2) a have "no_overwrites z ops rb1" by simp
  from Cons.IH [OF i this] a show ?case by simp
qed

text \<open>
  Claim C2, amended: in every state reached from a newly constructed buffer by
  operations among which \<open>Push\<close> is never called on a full buffer and \<open>DeepClear\<close>
  never on a non-empty one, when \<open>0 < size < capacity\<close> exactly the slots in the window
  \<open>[readerIdx, writerIdx)\<close> modulo capacity are live; when \<open>size = capacity\<close> all slots
  are live; when \<open>size = 0\<close> no slot is live.
\<close>

theorem live_window_no_overwrite:
  assumes "run_no_overwrites z c ops"
  shows "\<exists>rb L. run_live z c ops = Some (rb, L) \<and> live_window rb L"
proof -
  from assms have c: "1 \<le> c"
    by (auto simp: run_no_overwrites_def New_def split: if_splits)
  let ?rb0 = "\<lparr>data = replicate (nat c) z, size_rb = 0, cap = c,
                  writerIdx = 0, readerIdx = 0, lastWriterIdx = 0, wrapped = False\<rparr>"
  have n: "New z c = (Some ?rb0, None)" using c by (simp add: New_def)
  with assms have "no_overwrites z ops ?rb0" by (simp add: run_no_overwrites_def)
  from live_inv_exec [OF live_inv_New [OF c] this] n show ?thesis
    by (auto simp: run_live_def dest: live_inv_window)
qed


theorem live_window_no_overwrite_witness:
  "run_no_overwrites (0::int) 3 [OpPush 1, OpTryPush 2, OpPop, OpPop, OpPush 3, OpPush 4] \<and>
   run_live (0::int) 3 [OpPush 1, OpTryPush 2, OpPop, OpPop, OpPush 3, OpPush 4]
     = Some (\<lparr>data = [4, 0, 3], size_rb = 2, cap = 3, writerIdx = 1, readerIdx = 2,
              lastWriterIdx = 0, wrapped = True\<rparr>, {0, 2}) \<and>
   live_window \<lparr>data = [4, 0, 3::int], size_rb = 2, cap = 3, writerIdx = 1, readerIdx = 2,
              lastWriterIdx = 0, wrapped = True\<rparr> {0, 2}"
proof -
  have h: "run_no_overwrites (0::int) 3
             [OpPush 1, OpTryPush 2, OpPop, OpPop, OpPush 3, OpPush 4]"
    by code_simp
  have r: "run_live (0::int) 3 [OpPush 1, OpTryPush 2, OpPop, OpPop, OpPush 3, OpPush 4]
     = Some (\<lparr>data = [4, 0, 3], size_rb = 2, cap = 3, writerIdx = 1, readerIdx = 2,
              lastWriterIdx = 0, wrapped = True\<rparr>, {0, 2})"
    by code_simp
  from live_window_no_overwrite [OF h] r h show ?thesis by simp
qed

end
